theory Spec2Isabelle
  imports Main "HOL-Library.AList"
begin

section \<open>Decorations service: data model\<close>

text \<open>
  A shallow embedding of \<^verbatim>\<open>packages/core/src/browser/decorations-service.ts\<close>:
  the classes \<^verbatim>\<open>DecorationProviderWrapper\<close> and \<^verbatim>\<open>DecorationsServiceImpl\<close>.

  Objects are kept in an explicit store: every wrapper ever constructed lives in
  \<open>wrappers\<close> under its identity (a number), the two emitters of the service are
  named by the datatype \<open>emitter\<close>, and everything fired on them is appended to the
  log \<open>fired\<close>. A method of a wrapper takes the identity \<open>this\<close> of its receiver
  and the state, and returns the state it leaves behind.

  The classes \<^verbatim>\<open>Emitter\<close>, \<^verbatim>\<open>Disposable\<close>, \<^verbatim>\<open>CancellationTokenSource\<close>,
  \<^verbatim>\<open>TernarySearchTree\<close> and \<^verbatim>\<open>URI\<close> are imported by the file and not part of it.
  \<^verbatim>\<open>fire\<close> on an emitter reaches the listeners of that emitter and no other. The
  listeners themselves are outside the file: one that calls back into the service while
  an event is being fired is not modelled, and neither is a provider that fires its own
  change event from inside \<^verbatim>\<open>provideDecorations\<close>.
\<close>

subsection \<open>Resource identifiers\<close>

text \<open>
  Modelled from the spec: the class \<^verbatim>\<open>URI\<close> (imported from \<^verbatim>\<open>../common/uri\<close>) is
  an identifier that supports equality, a hierarchical containment test and a string
  round trip. It is modelled by its list of path segments; \<^verbatim>\<open>new URI(uri.toString())\<close>
  is then the identity. \<open>isDescendantOf k parent\<close> holds when \<open>k\<close> is a strict
  descendant of \<open>parent\<close>.
\<close>

type_synonym uri = "string list"

fun isDescendantOf :: "uri \<Rightarrow> uri \<Rightarrow> bool" where
  "isDescendantOf [] [] = False"
| "isDescendantOf (x # xs) [] = True"
| "isDescendantOf [] (p # ps) = False"
| "isDescendantOf (x # xs) (p # ps) = (x = p \<and> isDescendantOf xs ps)"

subsection \<open>Decorations and cache items\<close>

text \<open>
  \<^verbatim>\<open>interface Decoration\<close>: five optional fields. \<open>weight\<close> is a JavaScript number that
  this file never reads; it is kept as an integer.
\<close>

record decoration =
  weight :: "int option"
  color :: "string option"
  letter :: "string option"
  tooltip :: "string option"
  bubble :: "bool option"

text \<open>
  The values of the cache, \<^verbatim>\<open>DecorationDataRequest | Decoration | undefined\<close>. A
  request object is known by its identity; its cancellation token source and its
  promise carry the same number.
\<close>

datatype item = Undefined | DecorationDataRequest nat | Decoration decoration

text \<open>JavaScript truthiness of an item: objects are truthy, \<^verbatim>\<open>undefined\<close> is not.\<close>

fun truthy :: "item \<Rightarrow> bool" where
  "truthy Undefined = False"
| "truthy (DecorationDataRequest r) = True"
| "truthy (Decoration d) = True"

text \<open>A value of type \<^verbatim>\<open>Decoration | undefined\<close> as an item.\<close>

fun item_of :: "decoration option \<Rightarrow> item" where
  "item_of None = Undefined"
| "item_of (Some d) = Decoration d"

subsection \<open>The hierarchical cache\<close>

text \<open>
  Modelled from the spec: the class \<^verbatim>\<open>TernarySearchTree\<close> (imported from
  \<^verbatim>\<open>../common/ternary-search-tree\<close>) is a keyed container with
  \<^verbatim>\<open>get(key) -> entry | undefined\<close>, \<^verbatim>\<open>set(key, entry) -> previous entry | undefined\<close>,
  \<^verbatim>\<open>delete(key)\<close>, \<^verbatim>\<open>clear()\<close> and a search for the entries whose key is a strict
  descendant of a key. It is modelled as an association list with one pair per key that
  has been set and not deleted. \<^verbatim>\<open>undefined\<close> is a value that \<^verbatim>\<open>set\<close> can store, and
  \<^verbatim>\<open>get\<close> answers \<^verbatim>\<open>undefined\<close> both for a key that holds it and for a key that
  was never set. \<^verbatim>\<open>findSuperstr\<close> answers \<^verbatim>\<open>undefined\<close> (here \<open>None\<close>) when no key below
  the given one is stored, and an iterator over the stored values below it otherwise.
\<close>

type_synonym tst = "(uri \<times> item) list"

definition tst_get :: "tst \<Rightarrow> uri \<Rightarrow> item" where
  "tst_get t key = (case map_of t key of None \<Rightarrow> Undefined | Some element \<Rightarrow> element)"

definition tst_set :: "tst \<Rightarrow> uri \<Rightarrow> item \<Rightarrow> item \<times> tst" where
  "tst_set t key element = (tst_get t key, AList.update key element t)"

definition tst_delete :: "tst \<Rightarrow> uri \<Rightarrow> tst" where
  "tst_delete t key = AList.delete key t"

definition tst_clear :: "tst \<Rightarrow> tst" where
  "tst_clear t = []"

definition findSuperstr :: "tst \<Rightarrow> uri \<Rightarrow> item list option" where
  "findSuperstr t key =
     (let below = filter (\<lambda>kv. isDescendantOf (fst kv) key) t
      in if below = [] then None else Some (map snd below))"

subsection \<open>Providers, promises and exceptions\<close>

text \<open>
  What a promise is rejected with, or what a call throws: an \<^verbatim>\<open>Error\<close> with its name
  and message, or some other value.
\<close>

datatype reason = Error string string | NotAnError

fun isCanceled :: "reason \<Rightarrow> bool" where
  "isCanceled (Error name message) = (name = ''Canceled'' \<and> message = ''Canceled'')"
| "isCanceled NotAnError = False"

text \<open>
  The outcome of one call of \<^verbatim>\<open>provideDecorations\<close>: a value returned at once
  (\<^verbatim>\<open>Decoration | undefined\<close>), a promise, or an exception thrown by the call. What
  the promise settles with arrives later, as a step of its own.
\<close>

datatype provided = Sync "decoration option" | Thenable | Throws reason

text \<open>
  A provider answers a call from the identifier asked and from the calls made so far
  (each with the wrapper that made it), so that a provider with a state of its own is
  covered.
\<close>

type_synonym provider = "(nat \<times> uri) list \<Rightarrow> uri \<Rightarrow> provided"

text \<open>
  A method either returns or throws: \<open>Inl\<close> carries what was thrown. The state
  returned beside it is the state at that moment, since what a method has written
  before it throws stays written.
\<close>

abbreviation Thrown :: "reason \<Rightarrow> reason + 'a" where
  "Thrown \<equiv> Inl"

abbreviation Returned :: "'a \<Rightarrow> reason + 'a" where
  "Returned \<equiv> Inr"

subsection \<open>Emitters and the state\<close>

text \<open>
  The two emitters \<^verbatim>\<open>DecorationsServiceImpl\<close> creates. The stream the service exposes,
  \<^verbatim>\<open>onDidChangeDecorations\<close>, is the event of \<open>onDidChangeDecorationsEmitter\<close>.
\<close>

datatype emitter = onDidChangeDecorationsDelayedEmitter | onDidChangeDecorationsEmitter

text \<open>
  The two objects with an \<^verbatim>\<open>affectsResource\<close> method that the file builds: the one
  that answers true, and the one that asks a wrapper's \<^verbatim>\<open>knowsAbout\<close>.
\<close>

datatype ResourceDecorationChangeEvent = AffectsEverything | AffectsKnownTo nat

datatype payload = Uri uri | ChangeEvent ResourceDecorationChangeEvent

record DecorationProviderWrapper =
  provider :: provider
  uriEmitter :: emitter
  flushEmitter :: emitter
  data :: tst
  subscribed :: bool

record state =
  wrappers :: "nat \<Rightarrow> DecorationProviderWrapper"
  wrappers_allocated :: nat
  requests_allocated :: nat
  cancelled :: "nat list"
  calls :: "(nat \<times> uri) list"
  fired :: "(emitter \<times> payload) list"
  service_data :: "nat list"

text \<open>
  \<open>wrappers_allocated\<close> and \<open>requests_allocated\<close> count the objects constructed so
  far and give the next one its identity; \<open>cancelled\<close> lists the requests whose token
  source was cancelled; \<open>calls\<close> logs every call of \<^verbatim>\<open>provideDecorations\<close>;
  \<open>service_data\<close> is the array \<^verbatim>\<open>DecorationsServiceImpl.data\<close>; \<open>subscribed\<close> says
  that the listener the constructor registered has not been disposed of.
\<close>

definition fire :: "emitter \<Rightarrow> payload \<Rightarrow> state \<Rightarrow> state" where
  "fire e p s = s\<lparr>fired := fired s @ [(e, p)]\<rparr>"

definition set_data :: "nat \<Rightarrow> tst \<Rightarrow> state \<Rightarrow> state" where
  "set_data this t s = s\<lparr>wrappers := (wrappers s)(this := (wrappers s this)\<lparr>data := t\<rparr>)\<rparr>"

definition this_data :: "state \<Rightarrow> nat \<Rightarrow> tst" where
  "this_data s this = data (wrappers s this)"

section \<open>DecorationProviderWrapper\<close>

definition keepItem :: "nat \<Rightarrow> uri \<Rightarrow> decoration option \<Rightarrow> state \<Rightarrow> decoration option \<times> state" where
  "keepItem this uri dat s =
     (let deco = dat;
          (old, t) = tst_set (this_data s this) uri (item_of deco);
          s1 = set_data this t s
      in (deco,
          if deco \<noteq> None \<or> truthy old
          then fire (uriEmitter (wrappers s1 this)) (Uri uri) s1
          else s1))"

text \<open>
  \<^verbatim>\<open>fetchData\<close>. The request object, its token source and its promise are created
  together and share the fresh identity \<open>request\<close>.
\<close>

definition fetchData :: "nat \<Rightarrow> uri \<Rightarrow> state \<Rightarrow> (reason + decoration option) \<times> state" where
  "fetchData this uri s =
     (let pendingRequest = tst_get (this_data s this) uri;
          s1 = (case pendingRequest of
                  DecorationDataRequest r \<Rightarrow>
                    set_data this (tst_delete (this_data s this) uri) (s\<lparr>cancelled := cancelled s @ [r]\<rparr>)
                | _ \<Rightarrow> s);
          request = requests_allocated s1;
          dataOrThenable = provider (wrappers s1 this) (calls s1) uri;
          s2 = s1\<lparr>requests_allocated := Suc request, calls := calls s1 @ [(this, uri)]\<rparr>
      in case dataOrThenable of
           Throws e \<Rightarrow> (Thrown e, s2)
         | Sync dat \<Rightarrow> (let (deco, s3) = keepItem this uri dat s2 in (Returned deco, s3))
         | Thenable \<Rightarrow>
             (Returned None,
              set_data this (snd (tst_set (this_data s2 this) uri (DecorationDataRequest request))) s2))"

text \<open>
  The two callbacks \<^verbatim>\<open>fetchData\<close> hangs on the promise of \<open>request\<close>, run when the
  promise is fulfilled with \<open>dat\<close> or rejected with \<open>err\<close>.
\<close>

definition promise_then :: "nat \<Rightarrow> uri \<Rightarrow> nat \<Rightarrow> decoration option \<Rightarrow> state \<Rightarrow> state" where
  "promise_then this uri request dat s =
     (if tst_get (this_data s this) uri = DecorationDataRequest request
      then snd (keepItem this uri dat s)
      else s)"

definition promise_catch :: "nat \<Rightarrow> uri \<Rightarrow> nat \<Rightarrow> reason \<Rightarrow> state \<Rightarrow> state" where
  "promise_catch this uri request err s =
     (if \<not> isCanceled err \<and> tst_get (this_data s this) uri = DecorationDataRequest request
      then set_data this (tst_delete (this_data s this) uri) s
      else s)"

text \<open>The \<^verbatim>\<open>for\<close> loop of the listener: it stops at the first call that throws.\<close>

fun fetch_each :: "nat \<Rightarrow> uri list \<Rightarrow> state \<Rightarrow> (reason + unit) \<times> state" where
  "fetch_each this [] s = (Returned (), s)"
| "fetch_each this (uri # uris) s =
     (case fetchData this uri s of
        (Thrown e, s1) \<Rightarrow> (Thrown e, s1)
      | (Returned d, s1) \<Rightarrow> fetch_each this uris s1)"

text \<open>
  The listener the constructor registers on \<^verbatim>\<open>provider.onDidChange\<close>. The event
  carries \<^verbatim>\<open>undefined\<close> (\<open>None\<close>) or an array of identifiers; an empty array is
  truthy in JavaScript and takes the second branch.
\<close>

definition onDidChange_listener :: "nat \<Rightarrow> uri list option \<Rightarrow> state \<Rightarrow> (reason + unit) \<times> state" where
  "onDidChange_listener this uris s =
     (case uris of
        None \<Rightarrow>
          (Returned (),
           fire (flushEmitter (wrappers s this)) (ChangeEvent AffectsEverything)
             (set_data this (tst_clear (this_data s this)) s))
      | Some us \<Rightarrow> fetch_each this us s)"

definition wrapper_dispose :: "nat \<Rightarrow> state \<Rightarrow> state" where
  "wrapper_dispose this s =
     s\<lparr>wrappers := (wrappers s)(this := (wrappers s this)\<lparr>data := tst_clear (this_data s this), subscribed := False\<rparr>)\<rparr>"

definition knowsAbout :: "state \<Rightarrow> nat \<Rightarrow> uri \<Rightarrow> bool" where
  "knowsAbout s this uri =
     (truthy (tst_get (this_data s this) uri) \<or> findSuperstr (this_data s this) uri \<noteq> None)"

text \<open>
  The \<^verbatim>\<open>while\<close> loop of \<^verbatim>\<open>getOrRetrieve\<close> over the iterator of the children. A
  value that is truthy and not a \<^verbatim>\<open>DecorationDataRequest\<close> is a decoration.
\<close>

fun each_child :: "(decoration \<Rightarrow> bool \<Rightarrow> 'a \<Rightarrow> 'a) \<Rightarrow> item list \<Rightarrow> 'a \<Rightarrow> 'a" where
  "each_child callback [] acc = acc"
| "each_child callback (Decoration d # vs) acc = each_child callback vs (callback d True acc)"
| "each_child callback (v # vs) acc = each_child callback vs acc"

text \<open>
  \<^verbatim>\<open>getOrRetrieve\<close>. The callback writes to variables of the caller; \<open>acc\<close> is
  their value, which each call of the callback updates.
\<close>

definition getOrRetrieve ::
  "nat \<Rightarrow> uri \<Rightarrow> bool \<Rightarrow> (decoration \<Rightarrow> bool \<Rightarrow> 'a \<Rightarrow> 'a) \<Rightarrow> 'a \<Rightarrow> state \<Rightarrow> (reason + 'a) \<times> state" where
  "getOrRetrieve this uri includeChildren callback acc s =
     (let item0 = tst_get (this_data s this) uri;
          (fetched, s1) =
             (if item0 = Undefined
              then (case fetchData this uri s of
                      (Thrown e, s') \<Rightarrow> (Thrown e, s')
                    | (Returned d, s') \<Rightarrow> (Returned (item_of d), s'))
              else (Returned item0, s))
      in case fetched of
           Thrown e \<Rightarrow> (Thrown e, s1)
         | Returned item \<Rightarrow>
             (let acc1 = (case item of Decoration d \<Rightarrow> callback d False acc | _ \<Rightarrow> acc);
                  acc2 = (if includeChildren
                          then (case findSuperstr (this_data s1 this) uri of
                                  None \<Rightarrow> acc1
                                | Some vs \<Rightarrow> each_child callback vs acc1)
                          else acc1)
              in (Returned acc2, s1)))"

section \<open>DecorationsServiceImpl\<close>

definition new_DecorationProviderWrapper :: "provider \<Rightarrow> emitter \<Rightarrow> emitter \<Rightarrow> DecorationProviderWrapper" where
  "new_DecorationProviderWrapper p ue fe =
     \<lparr>provider = p, uriEmitter = ue, flushEmitter = fe, data = [], subscribed = True\<rparr>"

text \<open>The state of a service that was just constructed.\<close>

definition new_DecorationsServiceImpl :: state where
  "new_DecorationsServiceImpl =
     \<lparr>wrappers = (\<lambda>i. new_DecorationProviderWrapper (\<lambda>h u. Sync None)
                         onDidChangeDecorationsDelayedEmitter onDidChangeDecorationsEmitter),
      wrappers_allocated = 0, requests_allocated = 0, cancelled = [], calls = [],
      fired = [], service_data = []\<rparr>"

text \<open>
  \<^verbatim>\<open>registerDecorationsProvider\<close> returns the identity of the wrapper it constructed;
  the handle it returns is \<open>handle_dispose\<close> of that wrapper.
\<close>

definition registerDecorationsProvider :: "provider \<Rightarrow> state \<Rightarrow> nat \<times> state" where
  "registerDecorationsProvider p s =
     (let wrapper = wrappers_allocated s;
          s1 = s\<lparr>wrappers := (wrappers s)(wrapper :=
                     new_DecorationProviderWrapper p
                       onDidChangeDecorationsDelayedEmitter onDidChangeDecorationsEmitter),
                 wrappers_allocated := Suc wrapper\<rparr>;
          s2 = s1\<lparr>service_data := service_data s1 @ [wrapper]\<rparr>;
          s3 = fire onDidChangeDecorationsEmitter (ChangeEvent AffectsEverything) s2
      in (wrapper, s3))"

text \<open>\<^verbatim>\<open>Array.prototype.indexOf\<close>: the first index of the element, or -1.\<close>

fun indexOf :: "'a list \<Rightarrow> 'a \<Rightarrow> int" where
  "indexOf [] x = -1"
| "indexOf (y # ys) x = (if y = x then 0 else (let i = indexOf ys x in if i < 0 then -1 else i + 1))"

text \<open>
  \<^verbatim>\<open>Array.prototype.splice(start, 1)\<close>: a negative \<open>start\<close> counts from the end of
  the array.
\<close>

definition splice1 :: "int \<Rightarrow> 'a list \<Rightarrow> 'a list" where
  "splice1 start xs =
     (let n = int (length xs);
          from = (if start < 0 then max (n + start) 0 else min start n)
      in take (nat from) xs @ drop (Suc (nat from)) xs)"

text \<open>
  The function given to \<^verbatim>\<open>Disposable.create\<close>, for the wrapper \<open>wrapper\<close>.
  \<^verbatim>\<open>Disposable.create\<close> is taken to return an object whose \<^verbatim>\<open>dispose\<close> is the
  function it was given, so that every call of \<^verbatim>\<open>dispose\<close> on the handle runs it.
\<close>

definition handle_dispose :: "nat \<Rightarrow> state \<Rightarrow> state" where
  "handle_dispose wrapper s =
     (let s1 = s\<lparr>service_data := splice1 (indexOf (service_data s) wrapper) (service_data s)\<rparr>;
          s2 = fire onDidChangeDecorationsEmitter (ChangeEvent (AffectsKnownTo wrapper)) s1
      in wrapper_dispose wrapper s2)"

text \<open>The callback that \<^verbatim>\<open>getDecoration\<close> passes; \<open>acc\<close> is \<^verbatim>\<open>(data, containsChildren)\<close>.\<close>

definition collect :: "decoration \<Rightarrow> bool \<Rightarrow> decoration list \<times> bool \<Rightarrow> decoration list \<times> bool" where
  "collect deco isChild acc =
     (if \<not> isChild \<or> bubble deco = Some True
      then (fst acc @ [deco], isChild \<or> snd acc)
      else acc)"

fun each_wrapper ::
  "nat list \<Rightarrow> uri \<Rightarrow> bool \<Rightarrow> decoration list \<times> bool \<Rightarrow> state \<Rightarrow> (reason + decoration list \<times> bool) \<times> state" where
  "each_wrapper [] uri includeChildren acc s = (Returned acc, s)"
| "each_wrapper (wrapper # ws) uri includeChildren acc s =
     (case getOrRetrieve wrapper uri includeChildren collect acc s of
        (Thrown e, s1) \<Rightarrow> (Thrown e, s1)
      | (Returned acc1, s1) \<Rightarrow> each_wrapper ws uri includeChildren acc1 s1)"

definition getDecoration :: "uri \<Rightarrow> bool \<Rightarrow> state \<Rightarrow> (reason + decoration list) \<times> state" where
  "getDecoration uri includeChildren s =
     (case each_wrapper (service_data s) uri includeChildren ([], False) s of
        (Thrown e, s1) \<Rightarrow> (Thrown e, s1)
      | (Returned acc, s1) \<Rightarrow> (Returned (fst acc), s1))"

text \<open>
  What a subscriber of \<^verbatim>\<open>onDidChangeDecorations\<close> has received: the payloads fired on
  \<open>onDidChangeDecorationsEmitter\<close>, in order.
\<close>

definition onDidChangeDecorations :: "state \<Rightarrow> payload list" where
  "onDidChangeDecorations s =
     map snd (filter (\<lambda>ep. fst ep = onDidChangeDecorationsEmitter) (fired s))"

text \<open>\<^verbatim>\<open>affectsResource\<close> of an event, called in the state \<open>s\<close>.\<close>

fun affectsResource :: "state \<Rightarrow> ResourceDecorationChangeEvent \<Rightarrow> uri \<Rightarrow> bool" where
  "affectsResource s AffectsEverything uri = True"
| "affectsResource s (AffectsKnownTo wrapper) uri = knowsAbout s wrapper uri"

text \<open>
  The provider of the wrapper \<open>this\<close> fires its \<^verbatim>\<open>onDidChange\<close>: the listener runs
  while its subscription stands.
\<close>

definition provider_onDidChange :: "nat \<Rightarrow> uri list option \<Rightarrow> state \<Rightarrow> (reason + unit) \<times> state" where
  "provider_onDidChange this uris s =
     (if subscribed (wrappers s this) then onDidChange_listener this uris s else (Returned (), s))"

section \<open>Runs of the service\<close>

text \<open>
  What can happen to a service, one step at a time: a call of one of its two methods, a
  call of \<^verbatim>\<open>dispose\<close> on a handle it returned, a provider firing its
  \<^verbatim>\<open>onDidChange\<close>, and a promise being fulfilled or rejected. A handle exists only
  for a wrapper that was constructed. The steps on promises name the wrapper, the
  identifier and the request whose callbacks run; they are not restricted to the
  requests that are in flight, so the runs below cover every real history and more.
\<close>

datatype step =
    Register provider
  | DisposeHandle nat
  | GetDecoration uri bool
  | ProviderFires nat "uri list option"
  | Fulfilled nat uri nat "decoration option"
  | Rejected nat uri nat reason

fun do_step :: "step \<Rightarrow> state \<Rightarrow> state" where
  "do_step (Register p) s = snd (registerDecorationsProvider p s)"
| "do_step (DisposeHandle wrapper) s =
     (if wrapper < wrappers_allocated s then handle_dispose wrapper s else s)"
| "do_step (GetDecoration uri includeChildren) s = snd (getDecoration uri includeChildren s)"
| "do_step (ProviderFires this uris) s = snd (provider_onDidChange this uris s)"
| "do_step (Fulfilled this uri request dat) s = promise_then this uri request dat s"
| "do_step (Rejected this uri request err) s = promise_catch this uri request err s"

fun run :: "step list \<Rightarrow> state \<Rightarrow> state" where
  "run [] s = s"
| "run (x # xs) s = run xs (do_step x s)"

section \<open>Definitions for the proofs\<close>

text \<open>The wiring every wrapper is constructed with.\<close>

definition wired :: "state \<Rightarrow> bool" where
  "wired s = (\<forall>j. uriEmitter (wrappers s j) = onDidChangeDecorationsDelayedEmitter \<and>
                   flushEmitter (wrappers s j) = onDidChangeDecorationsEmitter)"

text \<open>
  The array of the service holds each wrapper once, and only wrappers that were
  constructed and whose listener is still registered.
\<close>

definition active_ok :: "state \<Rightarrow> bool" where
  "active_ok s =
     (distinct (service_data s) \<and>
      list_all (\<lambda>w. w < wrappers_allocated s \<and> subscribed (wrappers s w)) (service_data s))"

text \<open>Every request that is stored in a cache was allocated.\<close>

definition requests_known :: "state \<Rightarrow> bool" where
  "requests_known s =
     (\<forall>j k r. tst_get (this_data s j) k = DecorationDataRequest r \<longrightarrow> r < requests_allocated s)"

text \<open>
  The request \<open>r\<close> was allocated and is not the entry of \<open>uri\<close> in the cache of
  the wrapper \<open>this\<close>.
\<close>

definition superseded :: "nat \<Rightarrow> nat \<Rightarrow> uri \<Rightarrow> state \<Rightarrow> bool" where
  "superseded r this uri s =
     (r < requests_allocated s \<and> tst_get (this_data s this) uri \<noteq> DecorationDataRequest r)"

text \<open>
  The part of \<^verbatim>\<open>getOrRetrieve\<close> that follows the lookup, for the item found and the
  cache as the lookup left it.
\<close>

definition report :: "tst \<Rightarrow> uri \<Rightarrow> bool \<Rightarrow> (decoration \<Rightarrow> bool \<Rightarrow> 'a \<Rightarrow> 'a) \<Rightarrow> item \<Rightarrow> 'a \<Rightarrow> 'a" where
  "report t uri includeChildren callback item acc =
     (let acc1 = (case item of Decoration d \<Rightarrow> callback d False acc | _ \<Rightarrow> acc)
      in if includeChildren
         then (case findSuperstr t uri of
                 None \<Rightarrow> acc1
               | Some vs \<Rightarrow> each_child callback vs acc1)
         else acc1)"



section \<open>The result of a query, in the words of the specification\<close>

text \<open>The decorations among some values of the cache, in their order.\<close>

fun decorations_of :: "item list \<Rightarrow> decoration list" where
  "decorations_of [] = []"
| "decorations_of (Decoration d # vs) = d # decorations_of vs"
| "decorations_of (v # vs) = decorations_of vs"

text \<open>
  What one cache adds to the result of a query: the decoration stored for the
  identifier itself, then, when children are included, the decorations stored for its
  strict descendants whose \<open>bubble\<close> flag is true.
\<close>

definition spec_contribution :: "tst \<Rightarrow> uri \<Rightarrow> bool \<Rightarrow> decoration list" where
  "spec_contribution t uri includeChildren =
     decorations_of [tst_get t uri] @
     (if includeChildren
      then filter (\<lambda>d. bubble d = Some True)
             (decorations_of (map snd (filter (\<lambda>kv. isDescendantOf (fst kv) uri) t)))
      else [])"

section \<open>Values for the examples\<close>

text \<open>A decoration with no field set, and one that bubbles.\<close>

definition plain_decoration :: decoration where
  "plain_decoration = \<lparr>weight = None, color = None, letter = None, tooltip = None, bubble = None\<rparr>"

definition bubbling_decoration :: decoration where
  "bubbling_decoration = \<lparr>weight = None, color = None, letter = None, tooltip = None, bubble = Some True\<rparr>"

section \<open>Properties\<close>


subsection \<open>The cache\<close>

lemma tst_get_update: "tst_get (AList.update k v t) k' = (if k' = k then v else tst_get t k')"
  by (simp add: tst_get_def update_conv')

lemma tst_get_delete: "tst_get (AList.delete k t) k' = (if k' = k then Undefined else tst_get t k')"
  by (simp add: tst_get_def delete_conv')

lemma tst_get_Nil: "tst_get [] k = Undefined"
  by (simp add: tst_get_def)

lemmas wrapper_defs = keepItem_def fetchData_def promise_then_def promise_catch_def
  onDidChange_listener_def wrapper_dispose_def tst_set_def tst_delete_def tst_clear_def
  this_data_def set_data_def fire_def

lemma getOrRetrieve_state:
  "snd (getOrRetrieve this uri ic cb acc s) =
     (if tst_get (this_data s this) uri = Undefined then snd (fetchData this uri s) else s)"
  by (simp add: getOrRetrieve_def Let_def case_prod_beta split: sum.splits prod.splits)

subsection \<open>Invariants of runs\<close>

text \<open>An invariant of the state that every primitive keeps is kept by every run.\<close>

lemma fetch_each_invariant:
  assumes "\<And>this uri s. I s \<Longrightarrow> I (snd (fetchData this uri s))"
  shows "I s \<Longrightarrow> I (snd (fetch_each this uris s))"
proof (induction uris arbitrary: s)
  case Nil
  then show ?case by simp
next
  case (Cons u us)
  have "I (snd (fetchData this u s))" using assms Cons.prems by blast
  then show ?case
    using Cons.IH [of "snd (fetchData this u s)"]
    by (cases "fetchData this u s") (auto split: sum.splits)
qed

lemma each_wrapper_invariant:
  assumes "\<And>this uri s. I s \<Longrightarrow> I (snd (fetchData this uri s))"
  shows "I s \<Longrightarrow> I (snd (each_wrapper ws uri ic acc s))"
proof (induction ws arbitrary: s acc)
  case Nil
  then show ?case by simp
next
  case (Cons w ws)
  have "I (snd (getOrRetrieve w uri ic collect acc s))"
    using assms Cons.prems by (simp add: getOrRetrieve_state)
  then show ?case
    using Cons.IH [of "snd (getOrRetrieve w uri ic collect acc s)"]
    by (cases "getOrRetrieve w uri ic collect acc s") (auto split: sum.splits)
qed

lemma getDecoration_state:
  "snd (getDecoration uri ic s) = snd (each_wrapper (service_data s) uri ic ([], False) s)"
  by (simp add: getDecoration_def split: prod.splits sum.splits)

lemma run_snoc: "run (xs @ [x]) s = do_step x (run xs s)"
  by (induction xs arbitrary: s) simp_all

lemma do_step_invariant:
  assumes fetch: "\<And>this uri s. I s \<Longrightarrow> I (snd (fetchData this uri s))"
    and flush: "\<And>this s. I s \<Longrightarrow> I (snd (onDidChange_listener this None s))"
    and reg: "\<And>p s. I s \<Longrightarrow> I (snd (registerDecorationsProvider p s))"
    and disp: "\<And>w s. I s \<Longrightarrow> w < wrappers_allocated s \<Longrightarrow> I (handle_dispose w s)"
    and ful: "\<And>this uri r d s. I s \<Longrightarrow> I (promise_then this uri r d s)"
    and rej: "\<And>this uri r e s. I s \<Longrightarrow> I (promise_catch this uri r e s)"
  shows "I s \<Longrightarrow> I (do_step x s)"
proof (cases x)
  case (Register p)
  then show "I s \<Longrightarrow> I (do_step x s)" using reg by simp
next
  case (DisposeHandle w)
  then show "I s \<Longrightarrow> I (do_step x s)" using disp by simp
next
  case (GetDecoration uri ic)
  then show "I s \<Longrightarrow> I (do_step x s)"
    using each_wrapper_invariant [of I, OF fetch] by (simp add: getDecoration_state)
next
  case (ProviderFires this uris)
  show "I s \<Longrightarrow> I (do_step x s)"
  proof (cases uris)
    case None
    then show "I s \<Longrightarrow> I (do_step x s)"
      using ProviderFires flush [of s this] by (simp add: provider_onDidChange_def)
  next
    case (Some us)
    then show "I s \<Longrightarrow> I (do_step x s)"
      using ProviderFires fetch_each_invariant [of I, OF fetch, of s this us]
      by (simp add: provider_onDidChange_def onDidChange_listener_def)
  qed
next
  case (Fulfilled this uri r d)
  then show "I s \<Longrightarrow> I (do_step x s)" using ful by simp
next
  case (Rejected this uri r e)
  then show "I s \<Longrightarrow> I (do_step x s)" using rej by simp
qed

lemma run_invariant:
  assumes fetch: "\<And>this uri s. I s \<Longrightarrow> I (snd (fetchData this uri s))"
    and flush: "\<And>this s. I s \<Longrightarrow> I (snd (onDidChange_listener this None s))"
    and reg: "\<And>p s. I s \<Longrightarrow> I (snd (registerDecorationsProvider p s))"
    and disp: "\<And>w s. I s \<Longrightarrow> w < wrappers_allocated s \<Longrightarrow> I (handle_dispose w s)"
    and ful: "\<And>this uri r d s. I s \<Longrightarrow> I (promise_then this uri r d s)"
    and rej: "\<And>this uri r e s. I s \<Longrightarrow> I (promise_catch this uri r e s)"
  shows "I s \<Longrightarrow> I (run steps s)"
proof (induction steps arbitrary: s)
  case Nil
  then show ?case by simp
next
  case (Cons x xs)
  have "I (do_step x s)"
    using do_step_invariant [of I, OF fetch flush reg disp ful rej] Cons.prems by blast
  then show ?case using Cons.IH by simp
qed

lemma wired_run: "wired (run steps new_DecorationsServiceImpl)"
proof (rule run_invariant [of wired])
  show "wired new_DecorationsServiceImpl"
    by (simp add: wired_def new_DecorationsServiceImpl_def new_DecorationProviderWrapper_def)
next
  fix this uri s assume "wired s"
  then show "wired (snd (fetchData this uri s))"
    by (auto simp add: wired_def fetchData_def keepItem_def Let_def tst_set_def tst_delete_def
      this_data_def set_data_def fire_def case_prod_beta split: item.splits provided.splits)
next
  fix this s assume "wired s"
  then show "wired (snd (onDidChange_listener this None s))"
    by (simp add: wired_def wrapper_defs)
next
  fix p s assume "wired s"
  then show "wired (snd (registerDecorationsProvider p s))"
    by (simp add: wired_def registerDecorationsProvider_def new_DecorationProviderWrapper_def fire_def Let_def)
next
  fix w s assume "wired s"
  then show "wired (handle_dispose w s)"
    by (simp add: wired_def handle_dispose_def wrapper_defs Let_def)
next
  fix this uri r d s assume "wired s"
  then show "wired (promise_then this uri r d s)"
    by (simp add: wired_def wrapper_defs Let_def)
next
  fix this uri r e s assume "wired s"
  then show "wired (promise_catch this uri r e s)"
    by (simp add: wired_def wrapper_defs Let_def)
qed


lemma indexOf_notin: "x \<notin> set xs \<Longrightarrow> indexOf xs x = -1"
  by (induction xs) (auto simp add: Let_def)

lemma indexOf_in: "x \<in> set xs \<Longrightarrow> 0 \<le> indexOf xs x \<and> nat (indexOf xs x) < length xs \<and> xs ! nat (indexOf xs x) = x"
proof (induction xs)
  case Nil
  then show ?case by simp
next
  case (Cons y ys)
  show ?case
  proof (cases "y = x")
    case True
    then show ?thesis by simp
  next
    case False
    then have "x \<in> set ys" using Cons.prems by simp
    then have ih: "0 \<le> indexOf ys x \<and> nat (indexOf ys x) < length ys \<and> ys ! nat (indexOf ys x) = x"
      using Cons.IH by blast
    then show ?thesis using False by (simp add: Let_def nat_add_distrib)
  qed
qed

lemma set_splice1: "set (splice1 i xs) \<subseteq> set xs"
  by (auto simp add: splice1_def Let_def dest: in_set_takeD in_set_dropD)

lemma distinct_splice1: "distinct xs \<Longrightarrow> distinct (splice1 i xs)"
proof -
  assume d: "distinct xs"
  have "distinct (take n xs @ drop (Suc n) xs)" for n
  proof -
    have "distinct (take n xs @ drop n xs)" using d by simp
    then have "distinct (take n xs) \<and> distinct (drop n xs) \<and> set (take n xs) \<inter> set (drop n xs) = {}"
      using distinct_append by blast
    moreover have "set (drop (Suc n) xs) \<subseteq> set (drop n xs)"
      by (rule set_drop_subset_set_drop) simp
    moreover have "distinct (drop (Suc n) xs)" using d by (rule distinct_drop)
    ultimately show ?thesis by auto
  qed
  then show ?thesis by (simp add: splice1_def Let_def)
qed

lemma splice1_indexOf_removes:
  assumes "distinct xs" and "x \<in> set xs"
  shows "x \<notin> set (splice1 (indexOf xs x) xs)"
proof -
  let ?n = "nat (indexOf xs x)"
  have i: "0 \<le> indexOf xs x" "?n < length xs" "xs ! ?n = x" using indexOf_in [OF assms(2)] by auto
  have sp: "splice1 (indexOf xs x) xs = take ?n xs @ drop (Suc ?n) xs"
  proof -
    have "indexOf xs x \<le> int (length xs)" using i by linarith
    then show ?thesis using i by (simp add: splice1_def Let_def min_def)
  qed
  have "xs = take ?n xs @ x # drop (Suc ?n) xs"
    using i by (metis id_take_nth_drop)
  then have "distinct (take ?n xs @ x # drop (Suc ?n) xs)" using assms(1) by simp
  then show ?thesis using sp by auto
qed


lemma fetchData_wrappers:
  "wrappers (snd (fetchData this uri s)) j =
     (if j = this then (wrappers s j)\<lparr>data := data (wrappers (snd (fetchData this uri s)) j)\<rparr>
      else wrappers s j)"
  by (auto simp add: fetchData_def keepItem_def Let_def tst_set_def tst_delete_def
      this_data_def set_data_def fire_def case_prod_beta split: item.splits provided.splits)

lemma fetchData_refs:
  "provider (wrappers (snd (fetchData this uri s)) j) = provider (wrappers s j)"
  "uriEmitter (wrappers (snd (fetchData this uri s)) j) = uriEmitter (wrappers s j)"
  "flushEmitter (wrappers (snd (fetchData this uri s)) j) = flushEmitter (wrappers s j)"
  "subscribed (wrappers (snd (fetchData this uri s)) j) = subscribed (wrappers s j)"
  by (subst fetchData_wrappers, simp)+

lemma fetchData_fields:
  "wrappers_allocated (snd (fetchData this uri s)) = wrappers_allocated s"
  "service_data (snd (fetchData this uri s)) = service_data s"
  by (auto simp add: fetchData_def keepItem_def Let_def set_data_def fire_def tst_set_def case_prod_beta
      split: item.splits provided.splits)

lemma active_ok_run: "active_ok (run steps new_DecorationsServiceImpl)"
proof (rule run_invariant [of active_ok])
  show "active_ok new_DecorationsServiceImpl"
    by (simp add: active_ok_def new_DecorationsServiceImpl_def)
next
  fix this uri s assume "active_ok s"
  then show "active_ok (snd (fetchData this uri s))"
    by (simp add: active_ok_def fetchData_fields fetchData_refs)
next
  fix this s assume "active_ok s"
  then show "active_ok (snd (onDidChange_listener this None s))"
    by (auto simp add: active_ok_def wrapper_defs list_all_iff)
next
  fix p s assume "active_ok s"
  then show "active_ok (snd (registerDecorationsProvider p s))"
    by (auto simp add: active_ok_def registerDecorationsProvider_def new_DecorationProviderWrapper_def
        fire_def Let_def list_all_iff)
next
  fix w s assume a: "active_ok s" and "w < wrappers_allocated s"
  let ?sd = "splice1 (indexOf (service_data s) w) (service_data s)"
  have d: "distinct ?sd" using a by (simp add: active_ok_def distinct_splice1)
  have sub: "set ?sd \<subseteq> set (service_data s)" by (rule set_splice1)
  have nw: "w \<notin> set ?sd"
  proof (cases "w \<in> set (service_data s)")
    case True
    moreover have "distinct (service_data s)" using a by (simp add: active_ok_def)
    ultimately show ?thesis by (simp add: splice1_indexOf_removes)
  next
    case False
    then show ?thesis using sub by blast
  qed
  show "active_ok (handle_dispose w s)"
    using a d sub nw
    by (auto simp add: active_ok_def handle_dispose_def wrapper_defs Let_def list_all_iff)
next
  fix this uri r d s assume "active_ok s"
  then show "active_ok (promise_then this uri r d s)"
    by (auto simp add: active_ok_def wrapper_defs Let_def list_all_iff)
next
  fix this uri r e s assume "active_ok s"
  then show "active_ok (promise_catch this uri r e s)"
    by (auto simp add: active_ok_def wrapper_defs Let_def list_all_iff)
qed

section \<open>Flush and empty notifications\<close>

lemma onDidChangeDecorations_fire:
  "onDidChangeDecorations (fire e p s) =
     onDidChangeDecorations s @ (if e = onDidChangeDecorationsEmitter then [p] else [])"
  by (simp add: onDidChangeDecorations_def fire_def)

text \<open>
  Claim C5. When the provider of a wrapper that is in the array of the service fires
  its change event with no identifiers, the listener returns normally, the cache of
  that wrapper is empty afterwards, and one more event has arrived on
  \<^verbatim>\<open>onDidChangeDecorations\<close>, whose \<^verbatim>\<open>affectsResource\<close> answers true for every
  identifier, in whatever state it is asked. Pending entries are dropped with the rest;
  their requests are not cancelled.
\<close>

theorem C5_flush_clears_cache_and_notifies:
  assumes "s = run steps new_DecorationsServiceImpl"
    and "this \<in> set (service_data s)"
    and "provider_onDidChange this None s = (res, s')"
  shows "res = Returned () \<and> this_data s' this = [] \<and> cancelled s' = cancelled s \<and>
         onDidChangeDecorations s' = onDidChangeDecorations s @ [ChangeEvent AffectsEverything] \<and>
         (\<forall>s'' uri. affectsResource s'' AffectsEverything uri)"
proof -
  have "active_ok s" using assms(1) active_ok_run by simp
  then have sub: "subscribed (wrappers s this)"
    using assms(2) by (simp add: active_ok_def list_all_iff)
  have "wired s" using assms(1) wired_run by simp
  then have fe: "flushEmitter (wrappers s this) = onDidChangeDecorationsEmitter"
    by (simp add: wired_def)
  have eq: "s' = fire onDidChangeDecorationsEmitter (ChangeEvent AffectsEverything)
                  (set_data this (tst_clear (this_data s this)) s)" and r: "res = Returned ()"
    using assms(3) sub fe by (auto simp add: provider_onDidChange_def onDidChange_listener_def)
  have "this_data s' this = []"
    by (simp add: eq fire_def set_data_def this_data_def tst_clear_def)
  moreover have "cancelled s' = cancelled s"
    by (simp add: eq fire_def set_data_def)
  moreover have "onDidChangeDecorations s' = onDidChangeDecorations s @ [ChangeEvent AffectsEverything]"
    by (simp add: eq onDidChangeDecorations_fire) (simp add: onDidChangeDecorations_def set_data_def)
  ultimately show ?thesis using r by simp
qed

lemmas eval_defs = registerDecorationsProvider_def new_DecorationsServiceImpl_def
  new_DecorationProviderWrapper_def getDecoration_def getOrRetrieve_def fetchData_def keepItem_def
  promise_then_def promise_catch_def provider_onDidChange_def onDidChange_listener_def
  handle_dispose_def wrapper_dispose_def knowsAbout_def findSuperstr_def onDidChangeDecorations_def
  tst_get_def tst_set_def tst_delete_def tst_clear_def this_data_def set_data_def fire_def
  splice1_def collect_def Let_def

text \<open>
  An instance of C5: the cache holds a decoration for \<open>z\<close> and a pending request for
  \<open>a\<close> when its provider fires a change event with no identifiers. Both entries
  are dropped, and the pending request is not cancelled.
\<close>

theorem C5_witness:
  "(let s = run [Register (\<lambda>h u. if u = [''z''] then Sync (Some plain_decoration) else Thenable),
                 GetDecoration [''z''] False, GetDecoration [''a''] False] new_DecorationsServiceImpl;
        s' = snd (provider_onDidChange 0 None s)
    in 0 \<in> set (service_data s) \<and>
       this_data s 0 = [([''z''], Decoration plain_decoration), ([''a''], DecorationDataRequest 1)] \<and>
       this_data s' 0 = [] \<and>
       cancelled s' = cancelled s \<and>
       onDidChangeDecorations s' = onDidChangeDecorations s @ [ChangeEvent AffectsEverything])"
proof -
  let ?s = "run [Register (\<lambda>h u. if u = [''z''] then Sync (Some plain_decoration) else Thenable),
                 GetDecoration [''z''] False, GetDecoration [''a''] False] new_DecorationsServiceImpl"
  let ?r = "provider_onDidChange 0 None ?s"
  have m: "0 \<in> set (service_data ?s)" by (simp add: eval_defs)
  have d: "this_data ?s 0 = [([''z''], Decoration plain_decoration), ([''a''], DecorationDataRequest 1)]"
    by (simp add: eval_defs)
  have pr: "?r = (fst ?r, snd ?r)" by (rule prod_eqI) (simp_all only: fst_conv snd_conv)
  note t = C5_flush_clears_cache_and_notifies [OF refl m pr]
  have e: "this_data (snd ?r) 0 = []" and c: "cancelled (snd ?r) = cancelled ?s"
    and o: "onDidChangeDecorations (snd ?r) = onDidChangeDecorations ?s @ [ChangeEvent AffectsEverything]"
    using t by blast+
  show ?thesis unfolding Let_def using m d e c o by blast
qed

lemma fetch_each_Nil: "fetch_each this [] s = (Returned (), s)"
  by simp

text \<open>
  Claim C10. A change notification that carries an empty array of identifiers is not a
  flush: the listener returns with the state as it was, so the cache is unchanged, no
  call of the provider is made and nothing is fired on either emitter.
\<close>

theorem C10_empty_notification_noop:
  "provider_onDidChange this (Some []) s = (Returned (), s)"
  by (simp add: provider_onDidChange_def onDidChange_listener_def)


section \<open>Settled absence and the unknown state\<close>

lemma keepItem_absent_reads_undefined:
  "tst_get (this_data (snd (keepItem this uri None s)) this) uri = Undefined"
  by (simp add: wrapper_defs Let_def case_prod_beta tst_get_update)

lemma fetchData_calls: "calls (snd (fetchData this uri s)) = calls s @ [(this, uri)]"
  by (auto simp add: fetchData_def keepItem_def fire_def tst_set_def Let_def set_data_def case_prod_beta
      split: item.splits provided.splits)


text \<open>
  Claim C2. The claim fails on the code: \<^verbatim>\<open>keepItem\<close> stores \<^verbatim>\<open>undefined\<close> for a
  provider that answered with no decoration, \<^verbatim>\<open>get\<close> then reads \<^verbatim>\<open>undefined\<close> as it
  does for a key never set, and \<^verbatim>\<open>getOrRetrieve\<close> fetches again. Here the same
  identifier is queried twice, first with a provider that answers \<^verbatim>\<open>undefined\<close> at
  once, then with a provider that answers with a promise, which is fulfilled with
  \<^verbatim>\<open>undefined\<close> between the two queries. Both times the entry is settled as absent
  before the second query, and the second query calls the provider a second time.
\<close>

theorem C2_settled_absent_is_fetched_again:
  "(let s1 = run [Register (\<lambda>h u. Sync None), GetDecoration [''a''] False] new_DecorationsServiceImpl;
        s2 = do_step (GetDecoration [''a''] False) s1;
        t1 = run [Register (\<lambda>h u. Thenable), GetDecoration [''a''] False,
                  Fulfilled 0 [''a''] 0 None] new_DecorationsServiceImpl;
        t2 = do_step (GetDecoration [''a''] False) t1
    in this_data s1 0 = [([''a''], Undefined)] \<and>
       calls s1 = [(0, [''a''])] \<and>
       calls s2 = [(0, [''a'']), (0, [''a''])] \<and>
       this_data t1 0 = [([''a''], Undefined)] \<and>
       calls t1 = [(0, [''a''])] \<and>
       calls t2 = [(0, [''a'']), (0, [''a''])])"
  by (simp add: eval_defs)

section \<open>Where settlement events go\<close>

lemma promise_then_not_exposed:
  "wired s \<Longrightarrow> onDidChangeDecorations (promise_then this uri request dat s) = onDidChangeDecorations s"
  by (simp add: wired_def promise_then_def keepItem_def tst_set_def set_data_def fire_def
      onDidChangeDecorations_def Let_def case_prod_beta)

text \<open>
  Claim C3. The claim fails on the code: \<^verbatim>\<open>keepItem\<close> fires on the emitter the
  wrapper was given as \<^verbatim>\<open>uriEmitter\<close>, which is \<open>onDidChangeDecorationsDelayedEmitter\<close>,
  and nothing forwards that emitter to \<^verbatim>\<open>onDidChangeDecorations\<close>. Here a provider
  answers with a promise, the identifier is queried, and the promise is fulfilled with
  a decoration: the cache goes from the pending request to the decoration, the
  identifier is fired on the delayed emitter, and a subscriber of
  \<^verbatim>\<open>onDidChangeDecorations\<close> receives nothing.
\<close>

theorem C3_settlement_is_not_republished:
  "(let s2 = run [Register (\<lambda>h u. Thenable), GetDecoration [''a''] False] new_DecorationsServiceImpl;
        s3 = do_step (Fulfilled 0 [''a''] 0 (Some plain_decoration)) s2
    in this_data s2 0 = [([''a''], DecorationDataRequest 0)] \<and>
       this_data s3 0 = [([''a''], Decoration plain_decoration)] \<and>
       fired s3 = fired s2 @ [(onDidChangeDecorationsDelayedEmitter, Uri [''a''])] \<and>
       onDidChangeDecorations s3 = onDidChangeDecorations s2)"
  by (simp add: eval_defs)

section \<open>Disposing a registration\<close>

lemma handle_dispose_absent:
  "wrapper \<notin> set (service_data s) \<Longrightarrow>
     service_data (handle_dispose wrapper s) = butlast (service_data s)"
  by (cases "service_data s" rule: rev_cases)
     (simp_all add: handle_dispose_def wrapper_dispose_def fire_def Let_def indexOf_notin splice1_def)

text \<open>
  Claim C9. The claim fails on the code: the function given to
  \<^verbatim>\<open>Disposable.create\<close> does not check that the wrapper is still in the array, so
  on a second call \<^verbatim>\<open>indexOf\<close> answers -1 and \<^verbatim>\<open>splice(-1, 1)\<close> removes the last
  wrapper of the array. Here two providers are registered and the handle of the first
  is disposed of twice: the second disposal removes the second provider from the array
  and fires one more event.
\<close>

theorem C9_second_dispose_removes_last_provider:
  "(let s2 = run [Register (\<lambda>h u. Sync None), Register (\<lambda>h u. Thenable)] new_DecorationsServiceImpl;
        s3 = do_step (DisposeHandle 0) s2;
        s4 = do_step (DisposeHandle 0) s3
    in service_data s2 = [0, 1] \<and> service_data s3 = [1] \<and> service_data s4 = [] \<and>
       fired s4 = fired s3 @ [(onDidChangeDecorationsEmitter, ChangeEvent (AffectsKnownTo 0))])"
  by (simp add: eval_defs)

section \<open>knowsAbout\<close>

lemma truthy_tst_get:
  "truthy (tst_get t uri) \<longleftrightarrow>
     (\<exists>r. map_of t uri = Some (DecorationDataRequest r)) \<or> (\<exists>d. map_of t uri = Some (Decoration d))"
proof (cases "map_of t uri")
  case None
  then show ?thesis by (simp add: tst_get_def)
next
  case (Some v)
  then show ?thesis by (cases v) (simp_all add: tst_get_def)
qed

lemma findSuperstr_defined:
  "findSuperstr t uri \<noteq> None \<longleftrightarrow> (\<exists>k \<in> dom (map_of t). isDescendantOf k uri)"
proof -
  have a: "filter (\<lambda>kv. isDescendantOf (fst kv) uri) t = [] \<longleftrightarrow>
             \<not> (\<exists>kv \<in> set t. isDescendantOf (fst kv) uri)"
    by (simp add: filter_empty_conv)
  have b: "(\<exists>kv \<in> set t. isDescendantOf (fst kv) uri) \<longleftrightarrow>
             (\<exists>k \<in> dom (map_of t). isDescendantOf k uri)"
    by (auto simp add: dom_map_of_conv_image_fst)
  show ?thesis
    unfolding findSuperstr_def Let_def using a b by (auto split: if_splits)
qed

text \<open>
  Claim C8, as the code has it. \<^verbatim>\<open>knowsAbout\<close> is true exactly when the cache holds
  a pending request or a decoration for the identifier itself, or holds an entry of any
  state, settled absence included, for a strict descendant of it.
\<close>

theorem C8_knowsAbout_amended:
  "knowsAbout s this uri \<longleftrightarrow>
     (\<exists>r. map_of (this_data s this) uri = Some (DecorationDataRequest r)) \<or>
     (\<exists>d. map_of (this_data s this) uri = Some (Decoration d)) \<or>
     (\<exists>k \<in> dom (map_of (this_data s this)). isDescendantOf k uri)"
  unfolding knowsAbout_def truthy_tst_get findSuperstr_defined by blast

text \<open>
  Claim C8 as stated fails: after a provider has answered \<^verbatim>\<open>undefined\<close> for an
  identifier, the cache holds the settled absence for it, and \<^verbatim>\<open>knowsAbout\<close> of that
  identifier is false.
\<close>

theorem C8_counterexample:
  "(let s1 = run [Register (\<lambda>h u. Sync None), GetDecoration [''a''] False] new_DecorationsServiceImpl
    in map_of (this_data s1 0) [''a''] = Some Undefined \<and> \<not> knowsAbout s1 0 [''a''])"
  by (simp add: eval_defs)


section \<open>Selective change notifications\<close>

lemma fetchData_frame:
  "k \<noteq> uri \<Longrightarrow> map_of (this_data (snd (fetchData this uri s)) this) k = map_of (this_data s this) k"
  by (auto simp add: fetchData_def keepItem_def fire_def Let_def tst_set_def tst_delete_def
      this_data_def set_data_def case_prod_beta update_conv' delete_conv' split: item.splits provided.splits)

lemma fetchData_others:
  "j \<noteq> this \<Longrightarrow> wrappers (snd (fetchData this uri s)) j = wrappers s j"
  by (subst fetchData_wrappers) simp

lemma fetchData_throws:
  "fst (fetchData this uri s) = Thrown e \<longleftrightarrow> provider (wrappers s this) (calls s) uri = Throws e"
  by (auto simp add: fetchData_def Let_def set_data_def case_prod_beta split: item.splits provided.splits)

lemma fetch_each_Cons_snd:
  "snd (fetch_each this (u # us) s) =
     (case fst (fetchData this u s) of
        Inl e \<Rightarrow> snd (fetchData this u s)
      | Inr d \<Rightarrow> snd (fetch_each this us (snd (fetchData this u s))))"
  by (cases "fetchData this u s") (simp split: sum.splits)

lemma fetch_each_Cons_fst:
  "fst (fetch_each this (u # us) s) =
     (case fst (fetchData this u s) of
        Inl e \<Rightarrow> Thrown e
      | Inr d \<Rightarrow> fst (fetch_each this us (snd (fetchData this u s))))"
  by (cases "fetchData this u s") (simp split: sum.splits)

lemma fetch_each_frame:
  "k \<notin> set uris \<Longrightarrow> map_of (this_data (snd (fetch_each this uris s)) this) k = map_of (this_data s this) k"
proof (induction uris arbitrary: s)
  case Nil
  then show ?case by simp
next
  case (Cons u us)
  then have ku: "k \<noteq> u" and kus: "k \<notin> set us" by auto
  show ?case
    using Cons.IH [OF kus, of "snd (fetchData this u s)"] fetchData_frame [OF ku, of this s]
    by (simp add: fetch_each_Cons_snd del: fetch_each.simps split: sum.splits)
qed

lemma fetch_each_others:
  "j \<noteq> this \<Longrightarrow> wrappers (snd (fetch_each this uris s)) j = wrappers s j"
proof (induction uris arbitrary: s)
  case Nil
  then show ?case by simp
next
  case (Cons u us)
  show ?case
    using Cons.IH [OF Cons.prems, of "snd (fetchData this u s)"] fetchData_others [OF Cons.prems, of u s]
    by (simp add: fetch_each_Cons_snd del: fetch_each.simps split: sum.splits)
qed

lemma fetch_each_no_throw:
  "(\<forall>i<length uris. \<forall>e. provider (wrappers s this) (calls s @ map (Pair this) (take i uris)) (uris ! i) \<noteq> Throws e) \<Longrightarrow>
     fst (fetch_each this uris s) = Returned () \<and>
     calls (snd (fetch_each this uris s)) = calls s @ map (Pair this) uris"
proof (induction uris arbitrary: s)
  case Nil
  then show ?case by simp
next
  case (Cons u us)
  let ?s1 = "snd (fetchData this u s)"
  have c1: "calls ?s1 = calls s @ [(this, u)]" by (rule fetchData_calls)
  have p1: "provider (wrappers ?s1 this) = provider (wrappers s this)" by (rule fetchData_refs)
  have "\<forall>e. provider (wrappers s this) (calls s) u \<noteq> Throws e"
    using Cons.prems by force
  then have "\<forall>e. fst (fetchData this u s) \<noteq> Thrown e" by (simp add: fetchData_throws)
  then obtain d where d: "fst (fetchData this u s) = Returned d"
    by (cases "fst (fetchData this u s)") auto
  have "\<forall>i<length us. \<forall>e. provider (wrappers ?s1 this) (calls ?s1 @ map (Pair this) (take i us)) (us ! i) \<noteq> Throws e"
  proof (intro allI impI)
    fix i e assume "i < length us"
    then have "Suc i < length (u # us)" by simp
    then have "provider (wrappers s this) (calls s @ map (Pair this) (take (Suc i) (u # us))) ((u # us) ! Suc i) \<noteq> Throws e"
      using Cons.prems by blast
    then show "provider (wrappers ?s1 this) (calls ?s1 @ map (Pair this) (take i us)) (us ! i) \<noteq> Throws e"
      by (simp add: c1 p1)
  qed
  then have "fst (fetch_each this us ?s1) = Returned () \<and>
     calls (snd (fetch_each this us ?s1)) = calls ?s1 @ map (Pair this) us"
    by (rule Cons.IH)
  then show ?case
    using d c1 by (simp add: fetch_each_Cons_fst fetch_each_Cons_snd del: fetch_each.simps)
qed

lemma fetch_each_first_throw:
  "n < length uris \<Longrightarrow>
   provider (wrappers s this) (calls s @ map (Pair this) (take n uris)) (uris ! n) = Throws e \<Longrightarrow>
   (\<forall>i<n. \<forall>e'. provider (wrappers s this) (calls s @ map (Pair this) (take i uris)) (uris ! i) \<noteq> Throws e') \<Longrightarrow>
     fst (fetch_each this uris s) = Thrown e \<and>
     calls (snd (fetch_each this uris s)) = calls s @ map (Pair this) (take (Suc n) uris)"
proof (induction uris arbitrary: s n)
  case Nil
  then show ?case by simp
next
  case (Cons u us)
  let ?s1 = "snd (fetchData this u s)"
  have c1: "calls ?s1 = calls s @ [(this, u)]" by (rule fetchData_calls)
  have p1: "provider (wrappers ?s1 this) = provider (wrappers s this)" by (rule fetchData_refs)
  show ?case
  proof (cases n)
    case 0
    then have "provider (wrappers s this) (calls s) u = Throws e" using Cons.prems(2) by simp
    then have "fst (fetchData this u s) = Thrown e" by (simp add: fetchData_throws)
    then show ?thesis
      using 0 c1 by (simp add: fetch_each_Cons_fst fetch_each_Cons_snd del: fetch_each.simps)
  next
    case (Suc m)
    have "\<forall>e'. provider (wrappers s this) (calls s) u \<noteq> Throws e'"
      using Cons.prems(3) Suc by force
    then have "\<forall>e'. fst (fetchData this u s) \<noteq> Thrown e'" by (simp add: fetchData_throws)
    then obtain d where d: "fst (fetchData this u s) = Returned d"
      by (cases "fst (fetchData this u s)") auto
    have m: "m < length us" using Cons.prems(1) Suc by simp
    have t: "provider (wrappers ?s1 this) (calls ?s1 @ map (Pair this) (take m us)) (us ! m) = Throws e"
      using Cons.prems(2) Suc by (simp add: c1 p1)
    have b: "\<forall>i<m. \<forall>e'. provider (wrappers ?s1 this) (calls ?s1 @ map (Pair this) (take i us)) (us ! i) \<noteq> Throws e'"
    proof (intro allI impI)
      fix i e' assume "i < m"
      then have "Suc i < n" using Suc by simp
      then have "provider (wrappers s this) (calls s @ map (Pair this) (take (Suc i) (u # us))) ((u # us) ! Suc i) \<noteq> Throws e'"
        using Cons.prems(3) by blast
      then show "provider (wrappers ?s1 this) (calls ?s1 @ map (Pair this) (take i us)) (us ! i) \<noteq> Throws e'"
        by (simp add: c1 p1)
    qed
    have "fst (fetch_each this us ?s1) = Thrown e \<and>
          calls (snd (fetch_each this us ?s1)) = calls ?s1 @ map (Pair this) (take (Suc m) us)"
      using Cons.IH [OF m t b] .
    then show ?thesis
      using d c1 Suc by (simp add: fetch_each_Cons_fst fetch_each_Cons_snd del: fetch_each.simps)
  qed
qed

lemma fetch_each_frame_get:
  "k \<notin> set uris \<Longrightarrow> tst_get (this_data (snd (fetch_each this uris s)) this) k = tst_get (this_data s this) k"
  by (simp add: tst_get_def fetch_each_frame)


text \<open>
  Claim C7, as the code has it. When a provider whose listener is registered names
  identifiers in a change notification, the listener fetches them in the order given,
  whatever their entries are, and stops at the first call of the provider that throws.
  When no call throws, the listener returns and the calls made are those for the whole
  list, one for each identifier named. When the call for the identifier at index \<open>n\<close>
  is the first that throws, the listener throws what that call has thrown, and the
  calls made are those for the identifiers up to and including that one. In both cases
  the entry of every identifier that is not named reads as it did, and every other
  wrapper is left as it was.
\<close>

theorem C7_selective_refetch_amended:
  assumes "subscribed (wrappers s this)"
    and "provider_onDidChange this (Some uris) s = (res, s')"
  shows "(\<forall>k. k \<notin> set uris \<longrightarrow> tst_get (this_data s' this) k = tst_get (this_data s this) k) \<and>
         (\<forall>j. j \<noteq> this \<longrightarrow> wrappers s' j = wrappers s j) \<and>
         ((\<forall>i<length uris. \<forall>e.
              provider (wrappers s this) (calls s @ map (Pair this) (take i uris)) (uris ! i) \<noteq> Throws e) \<longrightarrow>
            res = Returned () \<and> calls s' = calls s @ map (Pair this) uris) \<and>
         (\<forall>n e. n < length uris \<and>
              provider (wrappers s this) (calls s @ map (Pair this) (take n uris)) (uris ! n) = Throws e \<and>
              (\<forall>i<n. \<forall>e'.
                 provider (wrappers s this) (calls s @ map (Pair this) (take i uris)) (uris ! i) \<noteq> Throws e') \<longrightarrow>
            res = Thrown e \<and> calls s' = calls s @ map (Pair this) (take (Suc n) uris))"
proof -
  have eq: "fetch_each this uris s = (res, s')"
    using assms by (simp add: provider_onDidChange_def onDidChange_listener_def)
  then have r: "res = fst (fetch_each this uris s)" and s': "s' = snd (fetch_each this uris s)"
    by simp_all
  have a: "\<forall>k. k \<notin> set uris \<longrightarrow> tst_get (this_data s' this) k = tst_get (this_data s this) k"
    using s' fetch_each_frame_get by blast
  have b: "\<forall>j. j \<noteq> this \<longrightarrow> wrappers s' j = wrappers s j"
    using s' fetch_each_others by blast
  have c: "(\<forall>i<length uris. \<forall>e.
              provider (wrappers s this) (calls s @ map (Pair this) (take i uris)) (uris ! i) \<noteq> Throws e) \<longrightarrow>
            res = Returned () \<and> calls s' = calls s @ map (Pair this) uris"
    using r s' fetch_each_no_throw [of uris s this] by blast
  have d: "\<forall>n e. n < length uris \<and>
              provider (wrappers s this) (calls s @ map (Pair this) (take n uris)) (uris ! n) = Throws e \<and>
              (\<forall>i<n. \<forall>e'.
                 provider (wrappers s this) (calls s @ map (Pair this) (take i uris)) (uris ! i) \<noteq> Throws e') \<longrightarrow>
            res = Thrown e \<and> calls s' = calls s @ map (Pair this) (take (Suc n) uris)"
    using r s' fetch_each_first_throw [of _ uris s this] by blast
  show ?thesis using a b c d by blast
qed

text \<open>
  Instances of C7: a cache that holds a decoration for \<open>z\<close> is told that \<open>x\<close> and
  \<open>y\<close>, both unknown, have changed, and both are fetched; told that \<open>x\<close>, \<open>v\<close>
  and \<open>y\<close> have changed, with a provider that throws for \<open>v\<close>, it fetches \<open>x\<close>
  and \<open>v\<close> and not \<open>y\<close>.
\<close>

theorem C7_witness:
  "(let s = run [Register (\<lambda>h u. if u = [''z''] then Sync (Some plain_decoration)
                                else if u = [''v''] then Throws NotAnError else Thenable),
                 GetDecoration [''z''] False] new_DecorationsServiceImpl;
        r = provider_onDidChange 0 (Some [[''x''], [''y'']]) s;
        t = provider_onDidChange 0 (Some [[''x''], [''v''], [''y'']]) s
    in subscribed (wrappers s 0) \<and>
       tst_get (this_data s 0) [''z''] = Decoration plain_decoration \<and>
       tst_get (this_data s 0) [''x''] = Undefined \<and>
       fst r = Returned () \<and>
       calls (snd r) = calls s @ [(0, [''x'']), (0, [''y''])] \<and>
       tst_get (this_data (snd r) 0) [''z''] = Decoration plain_decoration \<and>
       fst t = Thrown NotAnError \<and>
       calls (snd t) = calls s @ [(0, [''x'']), (0, [''v''])] \<and>
       tst_get (this_data (snd t) 0) [''z''] = Decoration plain_decoration)"
proof -
  let ?p = "\<lambda>(h :: (nat \<times> uri) list) u. if u = [''z''] then Sync (Some plain_decoration)
                                else if u = [''v''] then Throws NotAnError else Thenable"
  let ?s = "run [Register ?p, GetDecoration [''z''] False] new_DecorationsServiceImpl"
  let ?r = "provider_onDidChange 0 (Some [[''x''], [''y'']]) ?s"
  let ?t = "provider_onDidChange 0 (Some [[''x''], [''v''], [''y'']]) ?s"
  have sub: "subscribed (wrappers ?s 0)" by (simp add: eval_defs)
  have z: "tst_get (this_data ?s 0) [''z''] = Decoration plain_decoration" by (simp add: eval_defs)
  have x: "tst_get (this_data ?s 0) [''x''] = Undefined" by (simp add: eval_defs)
  have p: "provider (wrappers ?s 0) = ?p" by (simp add: eval_defs)
  have pr: "?r = (fst ?r, snd ?r)" by (rule prod_eqI) (simp_all only: fst_conv snd_conv)
  have pt: "?t = (fst ?t, snd ?t)" by (rule prod_eqI) (simp_all only: fst_conv snd_conv)
  note tr = C7_selective_refetch_amended [OF sub pr]
  note tt = C7_selective_refetch_amended [OF sub pt]
  have nr: "\<forall>i<length [[''x''], [''y'']]. \<forall>e.
      provider (wrappers ?s 0) (calls ?s @ map (Pair 0) (take i [[''x''], [''y'']])) ([[''x''], [''y'']] ! i) \<noteq> Throws e"
    unfolding p by (auto simp add: less_Suc_eq)
  have r1: "fst ?r = Returned ()" and r2: "calls (snd ?r) = calls ?s @ map (Pair 0) [[''x''], [''y'']]"
    using tr nr by blast+
  have r3: "tst_get (this_data (snd ?r) 0) [''z''] = tst_get (this_data ?s 0) [''z'']"
    using tr by simp
  have t0: "(1::nat) < length [[''x''], [''v''], [''y'']]" by simp
  have t1: "provider (wrappers ?s 0) (calls ?s @ map (Pair 0) (take 1 [[''x''], [''v''], [''y'']]))
              ([[''x''], [''v''], [''y'']] ! 1) = Throws NotAnError"
    unfolding p by simp
  have t2: "\<forall>i<1::nat. \<forall>e'. provider (wrappers ?s 0) (calls ?s @ map (Pair 0) (take i [[''x''], [''v''], [''y'']]))
              ([[''x''], [''v''], [''y'']] ! i) \<noteq> Throws e'"
    unfolding p by simp
  have t3: "fst ?t = Thrown NotAnError"
    and t4: "calls (snd ?t) = calls ?s @ map (Pair 0) (take (Suc 1) [[''x''], [''v''], [''y'']])"
    using tt t0 t1 t2 by blast+
  have t5: "tst_get (this_data (snd ?t) 0) [''z''] = tst_get (this_data ?s 0) [''z'']"
    using tt by simp
  have r2': "calls (snd ?r) = calls ?s @ [(0, [''x'']), (0, [''y''])]" using r2 by simp
  have t4': "calls (snd ?t) = calls ?s @ [(0, [''x'']), (0, [''v''])]" using t4 by simp
  show ?thesis unfolding Let_def using sub z x r1 r2' r3 t3 t4' t5 by simp
qed

text \<open>
  Claim C7 as stated fails: when the call of the provider for the first identifier
  named throws, the loop of the listener ends there and the second identifier named is
  never fetched.
\<close>

theorem C7_counterexample:
  "(let s = run [Register (\<lambda>h u. if u = [''x''] then Throws NotAnError else Thenable)] new_DecorationsServiceImpl;
        res = fst (provider_onDidChange 0 (Some [[''x''], [''y'']]) s);
        s' = snd (provider_onDidChange 0 (Some [[''x''], [''y'']]) s)
    in res = Thrown NotAnError \<and> calls s' = [(0, [''x''])])"
  by (simp add: eval_defs)


section \<open>The loops, one round at a time\<close>


lemma each_wrapper_Cons_fst:
  "fst (each_wrapper (w # ws) uri ic acc s) =
     (case fst (getOrRetrieve w uri ic collect acc s) of
        Inl e \<Rightarrow> Thrown e
      | Inr acc1 \<Rightarrow> fst (each_wrapper ws uri ic acc1 (snd (getOrRetrieve w uri ic collect acc s))))"
  by (cases "getOrRetrieve w uri ic collect acc s") (simp split: sum.splits)

lemma each_wrapper_Cons_snd:
  "snd (each_wrapper (w # ws) uri ic acc s) =
     (case fst (getOrRetrieve w uri ic collect acc s) of
        Inl e \<Rightarrow> snd (getOrRetrieve w uri ic collect acc s)
      | Inr acc1 \<Rightarrow> snd (each_wrapper ws uri ic acc1 (snd (getOrRetrieve w uri ic collect acc s))))"
  by (cases "getOrRetrieve w uri ic collect acc s") (simp split: sum.splits)



section \<open>What getDecoration collects\<close>

lemma getOrRetrieve_unfold:
  "getOrRetrieve this uri ic cb acc s =
     (if tst_get (this_data s this) uri = Undefined
      then (case fetchData this uri s of
              (Thrown e, s') \<Rightarrow> (Thrown e, s')
            | (Returned d, s') \<Rightarrow> (Returned (report (this_data s' this) uri ic cb (item_of d) acc), s'))
      else (Returned (report (this_data s this) uri ic cb (tst_get (this_data s this) uri) acc), s))"
  by (simp add: getOrRetrieve_def report_def Let_def split: prod.splits sum.splits)

lemma each_child_collect:
  "fst (each_child collect vs acc) = fst acc @ filter (\<lambda>d. bubble d = Some True) (decorations_of vs)"
  by (induction vs arbitrary: acc rule: decorations_of.induct) (simp_all add: collect_def)

lemma report_collect:
  "fst (report t uri ic collect item acc) =
     fst acc @ decorations_of [item] @
     (if ic then filter (\<lambda>d. bubble d = Some True)
                   (decorations_of (map snd (filter (\<lambda>kv. isDescendantOf (fst kv) uri) t)))
      else [])"
  by (cases item) (simp_all add: report_def findSuperstr_def Let_def collect_def each_child_collect)

lemma fetchData_exact:
  "fst (fetchData this uri s) = Returned d \<Longrightarrow>
     decorations_of [tst_get (this_data (snd (fetchData this uri s)) this) uri] = decorations_of [item_of d]"
  by (auto simp add: fetchData_def keepItem_def fire_def Let_def tst_set_def tst_delete_def
      this_data_def set_data_def case_prod_beta tst_get_update split: item.splits provided.splits)

lemma getOrRetrieve_collect:
  assumes "fst (getOrRetrieve this uri ic collect acc s) = Returned acc'"
  shows "fst acc' = fst acc @
           spec_contribution (this_data (snd (getOrRetrieve this uri ic collect acc s)) this) uri ic"
proof (cases "tst_get (this_data s this) uri = Undefined")
  case False
  then show ?thesis
    using assms by (auto simp add: getOrRetrieve_unfold report_collect spec_contribution_def)
next
  case True
  show ?thesis
  proof (cases "fetchData this uri s")
    case (Pair res s1)
    then have r: "res = fst (fetchData this uri s)" and s1: "s1 = snd (fetchData this uri s)"
      by simp_all
    show ?thesis
    proof (cases res)
      case (Inl e)
      then show ?thesis using assms True Pair by (simp add: getOrRetrieve_unfold)
    next
      case (Inr d)
      then have "decorations_of [tst_get (this_data s1 this) uri] = decorations_of [item_of d]"
        using fetchData_exact r s1 by simp
      then show ?thesis
        using assms True Pair Inr
        by (auto simp add: getOrRetrieve_unfold report_collect spec_contribution_def)
    qed
  qed
qed

lemma getOrRetrieve_others:
  "j \<noteq> this \<Longrightarrow> wrappers (snd (getOrRetrieve this uri ic cb acc s)) j = wrappers s j"
  by (simp add: getOrRetrieve_state fetchData_others)

lemma each_wrapper_others:
  "j \<notin> set ws \<Longrightarrow> wrappers (snd (each_wrapper ws uri ic acc s)) j = wrappers s j"
proof (induction ws arbitrary: acc s)
  case Nil
  then show ?case by simp
next
  case (Cons w ws)
  then have jw: "j \<noteq> w" and jws: "j \<notin> set ws" by auto
  show ?case
    by (simp add: each_wrapper_Cons_snd Cons.IH [OF jws] getOrRetrieve_others [OF jw]
        del: each_wrapper.simps split: sum.splits)
qed

lemma each_wrapper_result:
  assumes "distinct ws" and "fst (each_wrapper ws uri ic acc s) = Returned acc'"
  shows "fst acc' = fst acc @
           concat (map (\<lambda>w. spec_contribution (this_data (snd (each_wrapper ws uri ic acc s)) w) uri ic) ws)"
  using assms
proof (induction ws arbitrary: acc s)
  case Nil
  then show ?case by simp
next
  case (Cons w ws)
  let ?g = "getOrRetrieve w uri ic collect acc s"
  obtain acc1 where a1: "fst ?g = Returned acc1"
    using Cons.prems(2) by (cases "fst ?g") (simp_all add: each_wrapper_Cons_fst del: each_wrapper.simps)
  let ?r = "each_wrapper ws uri ic acc1 (snd ?g)"
  have fr: "fst ?r = Returned acc'"
    using Cons.prems(2) a1 by (simp add: each_wrapper_Cons_fst del: each_wrapper.simps)
  have sr: "snd (each_wrapper (w # ws) uri ic acc s) = snd ?r"
    using a1 by (simp add: each_wrapper_Cons_snd del: each_wrapper.simps)
  have d: "distinct ws" and nw: "w \<notin> set ws" using Cons.prems(1) by simp_all
  have ih: "fst acc' = fst acc1 @ concat (map (\<lambda>w. spec_contribution (this_data (snd ?r) w) uri ic) ws)"
    using Cons.IH [OF d fr] .
  have "wrappers (snd ?r) w = wrappers (snd ?g) w" using each_wrapper_others [OF nw] .
  then have same: "this_data (snd ?r) w = this_data (snd ?g) w" by (simp add: this_data_def)
  have "fst acc1 = fst acc @ spec_contribution (this_data (snd ?g) w) uri ic"
    using getOrRetrieve_collect [OF a1] .
  then show ?case using ih same sr by simp
qed


lemma decorations_of_mem: "d \<in> set (decorations_of vs) \<longleftrightarrow> Decoration d \<in> set vs"
  by (induction vs rule: decorations_of.induct) auto

lemma spec_contribution_mem:
  "d \<in> set (spec_contribution t uri ic) \<longleftrightarrow>
     tst_get t uri = Decoration d \<or>
     (ic \<and> bubble d = Some True \<and> (\<exists>k. isDescendantOf k uri \<and> (k, Decoration d) \<in> set t))"
proof -
  have a: "d \<in> set (decorations_of [tst_get t uri]) \<longleftrightarrow> tst_get t uri = Decoration d"
    by (auto simp add: decorations_of_mem)
  have b: "d \<in> set (decorations_of (map snd (filter (\<lambda>kv. isDescendantOf (fst kv) uri) t))) \<longleftrightarrow>
             (\<exists>k. isDescendantOf k uri \<and> (k, Decoration d) \<in> set t)"
    by (force simp add: decorations_of_mem)
  show ?thesis
    unfolding spec_contribution_def using a b by auto
qed

lemma fetchData_frame_all:
  "k \<noteq> uri \<Longrightarrow> map_of (this_data (snd (fetchData this uri s)) j) k = map_of (this_data s j) k"
proof (cases "j = this")
  case True
  assume "k \<noteq> uri"
  then show ?thesis using True fetchData_frame by simp
next
  case False
  then show ?thesis by (simp add: this_data_def fetchData_others)
qed

lemma getOrRetrieve_frame_all:
  "k \<noteq> uri \<Longrightarrow>
     map_of (this_data (snd (getOrRetrieve this uri ic cb acc s)) j) k = map_of (this_data s j) k"
  by (simp add: getOrRetrieve_state fetchData_frame_all)

lemma each_wrapper_frame:
  "k \<noteq> uri \<Longrightarrow>
     map_of (this_data (snd (each_wrapper ws uri ic acc s)) j) k = map_of (this_data s j) k"
proof (induction ws arbitrary: acc s)
  case Nil
  then show ?case by simp
next
  case (Cons w ws)
  show ?case
    by (simp add: each_wrapper_Cons_snd Cons.IH [OF Cons.prems] getOrRetrieve_frame_all [OF Cons.prems]
        del: each_wrapper.simps split: sum.splits)
qed

lemma getOrRetrieve_calls:
  "\<exists>ws. calls (snd (getOrRetrieve this uri ic cb acc s)) = calls s @ map (\<lambda>w. (w, uri)) ws"
proof (cases "tst_get (this_data s this) uri = Undefined")
  case True
  then have "calls (snd (getOrRetrieve this uri ic cb acc s)) = calls s @ map (\<lambda>w. (w, uri)) [this]"
    by (simp add: getOrRetrieve_state fetchData_calls)
  then show ?thesis by blast
next
  case False
  then have "calls (snd (getOrRetrieve this uri ic cb acc s)) = calls s @ map (\<lambda>w. (w, uri)) []"
    by (simp add: getOrRetrieve_state)
  then show ?thesis by blast
qed

lemma each_wrapper_calls:
  "\<exists>ws'. calls (snd (each_wrapper ws uri ic acc s)) = calls s @ map (\<lambda>w. (w, uri)) ws'"
proof (induction ws arbitrary: acc s)
  case Nil
  have "calls s = calls s @ map (\<lambda>w. (w, uri)) []" by simp
  then show ?case by (metis each_wrapper.simps(1) snd_conv)
next
  case (Cons w ws)
  let ?g = "getOrRetrieve w uri ic collect acc s"
  obtain w1 where w1: "calls (snd ?g) = calls s @ map (\<lambda>w. (w, uri)) w1"
    using getOrRetrieve_calls [of w uri ic collect acc s] by blast
  show ?case
  proof (cases "fst ?g")
    case (Inl e)
    then show ?thesis using w1 by (auto simp add: each_wrapper_Cons_snd simp del: each_wrapper.simps)
  next
    case (Inr acc1)
    obtain w2 where "calls (snd (each_wrapper ws uri ic acc1 (snd ?g))) = calls (snd ?g) @ map (\<lambda>w. (w, uri)) w2"
      using Cons.IH by blast
    then have "calls (snd (each_wrapper (w # ws) uri ic acc s)) = calls s @ map (\<lambda>w. (w, uri)) (w1 @ w2)"
      using Inr w1 by (simp add: each_wrapper_Cons_snd del: each_wrapper.simps)
    then show ?thesis by blast
  qed
qed

text \<open>
  Claim C6. In every state a service can reach, when \<^verbatim>\<open>getDecoration\<close> returns, a
  decoration is in the result exactly when, for some wrapper of the service, it is the
  entry of the identifier itself (whatever \<^verbatim>\<open>includeChildren\<close> and its \<open>bubble\<close>
  flag are), or \<^verbatim>\<open>includeChildren\<close> is true, its \<open>bubble\<close> flag is true and it is
  the entry of a strict descendant. Entries that are pending or absent add nothing. The
  call leaves the entry of every other identifier as it was, and every call of a
  provider it makes is for the identifier itself.
\<close>

theorem C6_getDecoration_collects:
  assumes "s = run steps new_DecorationsServiceImpl"
    and "getDecoration uri ic s = (Returned ds, s')"
  shows "(\<forall>d. d \<in> set ds \<longleftrightarrow>
            (\<exists>w \<in> set (service_data s).
               tst_get (this_data s' w) uri = Decoration d \<or>
               (ic \<and> bubble d = Some True \<and>
                (\<exists>k. isDescendantOf k uri \<and> (k, Decoration d) \<in> set (this_data s' w))))) \<and>
         (\<forall>w k. k \<noteq> uri \<longrightarrow> map_of (this_data s' w) k = map_of (this_data s w) k) \<and>
         (\<exists>ws. calls s' = calls s @ map (\<lambda>w. (w, uri)) ws)"
proof -
  let ?r = "each_wrapper (service_data s) uri ic ([], False) s"
  have "active_ok s" using assms(1) active_ok_run by simp
  then have dist: "distinct (service_data s)" by (simp add: active_ok_def)
  obtain b where fr: "fst ?r = Returned (ds, b)" and sr: "s' = snd ?r"
    using assms(2) by (cases ?r) (auto simp add: getDecoration_def split: sum.splits)
  have "ds = concat (map (\<lambda>w. spec_contribution (this_data s' w) uri ic) (service_data s))"
    using each_wrapper_result [OF dist fr] sr by simp
  then have m: "\<forall>d. d \<in> set ds \<longleftrightarrow>
            (\<exists>w \<in> set (service_data s).
               tst_get (this_data s' w) uri = Decoration d \<or>
               (ic \<and> bubble d = Some True \<and>
                (\<exists>k. isDescendantOf k uri \<and> (k, Decoration d) \<in> set (this_data s' w))))"
    by (simp add: spec_contribution_mem)
  have f: "\<forall>w k. k \<noteq> uri \<longrightarrow> map_of (this_data s' w) k = map_of (this_data s w) k"
    using sr each_wrapper_frame by blast
  have c: "\<exists>ws. calls s' = calls s @ map (\<lambda>w. (w, uri)) ws"
    using sr each_wrapper_calls by blast
  show ?thesis using m f c by blast
qed

text \<open>
  An instance of C6: a cache holds a bubbling decoration for \<open>a/b\<close> and a decoration
  that does not bubble for \<open>a/c\<close>, and nothing for \<open>a\<close>, whose provider answers
  with a promise. A query of \<open>a\<close> with its children collects the first one only.
\<close>

theorem C6_witness:
  "(let s = run [Register (\<lambda>h u. if u = [''a'', ''b''] then Sync (Some bubbling_decoration)
                                else if u = [''a'', ''c''] then Sync (Some plain_decoration)
                                else Thenable),
                 GetDecoration [''a'', ''b''] False,
                 GetDecoration [''a'', ''c''] False] new_DecorationsServiceImpl;
        r = getDecoration [''a''] True s
    in fst r = Returned [bubbling_decoration] \<and>
       bubbling_decoration \<in> set [bubbling_decoration] \<and>
       plain_decoration \<notin> set [bubbling_decoration] \<and>
       (\<exists>ws. calls (snd r) = calls s @ map (\<lambda>w. (w, [''a''])) ws))"
proof -
  let ?s = "run [Register (\<lambda>h u. if u = [''a'', ''b''] then Sync (Some bubbling_decoration)
                                else if u = [''a'', ''c''] then Sync (Some plain_decoration)
                                else Thenable),
                 GetDecoration [''a'', ''b''] False,
                 GetDecoration [''a'', ''c''] False] new_DecorationsServiceImpl"
  let ?r = "getDecoration [''a''] True ?s"
  have f: "fst ?r = Returned [bubbling_decoration]"
    by (simp add: eval_defs bubbling_decoration_def plain_decoration_def)
  have ev: "?r = (Returned [bubbling_decoration], snd ?r)"
    by (rule prod_eqI) (simp_all only: f fst_conv snd_conv)
  note t = C6_getDecoration_collects [OF refl ev]
  have c: "\<exists>ws. calls (snd ?r) = calls ?s @ map (\<lambda>w. (w, [''a''])) ws" using t by blast
  have p: "plain_decoration \<notin> set [bubbling_decoration]"
    by (simp add: bubbling_decoration_def plain_decoration_def)
  have b: "bubbling_decoration \<in> set [bubbling_decoration]" by simp
  show ?thesis unfolding Let_def using f b p c by blast
qed

section \<open>Faults of a provider\<close>















section \<open>Superseded requests\<close>

lemma requests_known_run: "requests_known (run steps new_DecorationsServiceImpl)"
proof (rule run_invariant [of requests_known])
  show "requests_known new_DecorationsServiceImpl"
    by (simp add: requests_known_def new_DecorationsServiceImpl_def new_DecorationProviderWrapper_def
        this_data_def tst_get_Nil)
next
  fix this uri s assume "requests_known s"
  then show "requests_known (snd (fetchData this uri s))"
    unfolding requests_known_def
    by (auto simp add: fetchData_def keepItem_def fire_def Let_def tst_set_def tst_delete_def
        this_data_def set_data_def case_prod_beta tst_get_update tst_get_delete less_Suc_eq
        split: item.splits provided.splits if_splits option.splits)
next
  fix this s assume "requests_known s"
  then show "requests_known (snd (onDidChange_listener this None s))"
    unfolding requests_known_def
    by (auto simp add: wrapper_defs tst_get_Nil split: if_splits)
next
  fix p s assume "requests_known s"
  then show "requests_known (snd (registerDecorationsProvider p s))"
    unfolding requests_known_def
    by (auto simp add: registerDecorationsProvider_def new_DecorationProviderWrapper_def fire_def
        this_data_def Let_def tst_get_Nil split: if_splits)
next
  fix w s assume "requests_known s"
  then show "requests_known (handle_dispose w s)"
    unfolding requests_known_def
    by (auto simp add: handle_dispose_def wrapper_defs Let_def tst_get_Nil split: if_splits)
next
  fix this uri r d s assume "requests_known s"
  then show "requests_known (promise_then this uri r d s)"
    unfolding requests_known_def
    by (cases d) (auto simp add: wrapper_defs Let_def tst_get_update split: if_splits)
next
  fix this uri r e s assume "requests_known s"
  then show "requests_known (promise_catch this uri r e s)"
    unfolding requests_known_def
    by (auto simp add: wrapper_defs Let_def tst_get_delete split: if_splits)
qed


lemma superseded_run: "superseded r1 this1 uri1 s \<Longrightarrow> superseded r1 this1 uri1 (run steps s)"
proof (rule run_invariant [of "superseded r1 this1 uri1"])
  fix this uri s assume "superseded r1 this1 uri1 s"
  then show "superseded r1 this1 uri1 (snd (fetchData this uri s))"
    unfolding superseded_def
    by (auto simp add: fetchData_def keepItem_def fire_def Let_def tst_set_def tst_delete_def
        this_data_def set_data_def case_prod_beta tst_get_update tst_get_delete less_Suc_eq
        split: item.splits provided.splits if_splits option.splits)
next
  fix this s assume "superseded r1 this1 uri1 s"
  then show "superseded r1 this1 uri1 (snd (onDidChange_listener this None s))"
    unfolding superseded_def
    by (auto simp add: wrapper_defs tst_get_Nil split: if_splits)
next
  fix p s assume "superseded r1 this1 uri1 s"
  then show "superseded r1 this1 uri1 (snd (registerDecorationsProvider p s))"
    unfolding superseded_def
    by (auto simp add: registerDecorationsProvider_def new_DecorationProviderWrapper_def fire_def
        this_data_def Let_def tst_get_Nil split: if_splits)
next
  fix w s assume "superseded r1 this1 uri1 s"
  then show "superseded r1 this1 uri1 (handle_dispose w s)"
    unfolding superseded_def
    by (auto simp add: handle_dispose_def wrapper_defs Let_def tst_get_Nil split: if_splits)
next
  fix this uri r d s assume "superseded r1 this1 uri1 s"
  then show "superseded r1 this1 uri1 (promise_then this uri r d s)"
    unfolding superseded_def
    by (cases d) (auto simp add: wrapper_defs Let_def tst_get_update split: if_splits)
next
  fix this uri r e s assume "superseded r1 this1 uri1 s"
  then show "superseded r1 this1 uri1 (promise_catch this uri r e s)"
    unfolding superseded_def
    by (auto simp add: wrapper_defs Let_def tst_get_delete split: if_splits)
qed

lemma fetchData_cancels:
  "tst_get (this_data s this) uri = DecorationDataRequest r1 \<Longrightarrow>
     cancelled (snd (fetchData this uri s)) = cancelled s @ [r1]"
  by (auto simp add: fetchData_def keepItem_def fire_def Let_def tst_set_def
      set_data_def case_prod_beta split: provided.splits)

lemma fetchData_supersedes:
  "tst_get (this_data s this) uri = DecorationDataRequest r1 \<Longrightarrow> r1 < requests_allocated s \<Longrightarrow>
     superseded r1 this uri (snd (fetchData this uri s))"
  unfolding superseded_def
  by (auto simp add: fetchData_def keepItem_def fire_def Let_def tst_set_def tst_delete_def
      this_data_def set_data_def case_prod_beta tst_get_update tst_get_delete
      split: provided.splits option.splits)

lemma fetchData_installs:
  "provider (wrappers s this) (calls s) uri = Thenable \<Longrightarrow>
     tst_get (this_data (snd (fetchData this uri s)) this) uri = DecorationDataRequest (requests_allocated s)"
  by (auto simp add: fetchData_def Let_def tst_set_def tst_delete_def
      this_data_def set_data_def tst_get_update split: item.splits)

text \<open>
  Claim C1. In a state a service can reach, let the entry of an identifier be the
  pending request \<open>r1\<close>, and let a second fetch of that identifier start. Then the
  token source of \<open>r1\<close> is cancelled and \<open>r1\<close> is no longer the entry; when the
  provider answers with a promise, the entry is the new request, which is not \<open>r1\<close>.
  Whatever steps the service takes afterwards, \<open>r1\<close> is never again the entry, and
  the callbacks on the promise of \<open>r1\<close> leave the whole state as it is when that
  promise is fulfilled or rejected: no write to the cache and nothing fired.
\<close>

theorem C1_superseded_fetch_is_ignored:
  assumes "s = run steps new_DecorationsServiceImpl"
    and "tst_get (this_data s this) uri = DecorationDataRequest r1"
    and "fetchData this uri s = (res, s1)"
    and "s2 = run later s1"
  shows "r1 \<in> set (cancelled s1) \<and>
         tst_get (this_data s1 this) uri \<noteq> DecorationDataRequest r1 \<and>
         (provider (wrappers s this) (calls s) uri = Thenable \<longrightarrow>
            tst_get (this_data s1 this) uri = DecorationDataRequest (requests_allocated s) \<and>
            requests_allocated s \<noteq> r1) \<and>
         tst_get (this_data s2 this) uri \<noteq> DecorationDataRequest r1 \<and>
         promise_then this uri r1 dat s2 = s2 \<and>
         promise_catch this uri r1 err s2 = s2"
proof -
  have s1: "s1 = snd (fetchData this uri s)" using assms(3) by simp
  have "requests_known s" using assms(1) requests_known_run by simp
  then have lt: "r1 < requests_allocated s" using assms(2) by (auto simp add: requests_known_def)
  have c: "r1 \<in> set (cancelled s1)" using s1 fetchData_cancels [OF assms(2)] by simp
  have sup1: "superseded r1 this uri s1" using s1 fetchData_supersedes [OF assms(2) lt] by simp
  then have sup2: "superseded r1 this uri s2" using assms(4) superseded_run by simp
  have n1: "tst_get (this_data s1 this) uri \<noteq> DecorationDataRequest r1"
    using sup1 by (simp add: superseded_def)
  have n2: "tst_get (this_data s2 this) uri \<noteq> DecorationDataRequest r1"
    using sup2 by (simp add: superseded_def)
  have i: "provider (wrappers s this) (calls s) uri = Thenable \<longrightarrow>
            tst_get (this_data s1 this) uri = DecorationDataRequest (requests_allocated s) \<and>
            requests_allocated s \<noteq> r1"
    using s1 lt fetchData_installs by auto
  have t: "promise_then this uri r1 dat s2 = s2" using n2 by (simp add: promise_then_def)
  have e: "promise_catch this uri r1 err s2 = s2" using n2 by (simp add: promise_catch_def)
  show ?thesis using c n1 i n2 t e by blast
qed

text \<open>
  An instance of C1: the provider answers every call with a promise; \<open>a\<close> is queried,
  then fetched again while its request 0 is pending, and the promise of the second
  request is fulfilled. The promise of request 0, fulfilled last, changes nothing.
\<close>

theorem C1_witness:
  "(let s = run [Register (\<lambda>h u. Thenable), GetDecoration [''a''] False] new_DecorationsServiceImpl;
        s1 = snd (fetchData 0 [''a''] s);
        s2 = run [Fulfilled 0 [''a''] 1 (Some plain_decoration)] s1
    in tst_get (this_data s 0) [''a''] = DecorationDataRequest 0 \<and>
       0 \<in> set (cancelled s1) \<and>
       tst_get (this_data s1 0) [''a''] = DecorationDataRequest 1 \<and>
       this_data s2 0 = [([''a''], Decoration plain_decoration)] \<and>
       promise_then 0 [''a''] 0 (Some bubbling_decoration) s2 = s2 \<and>
       promise_catch 0 [''a''] 0 NotAnError s2 = s2)"
proof -
  let ?s = "run [Register (\<lambda>h u. Thenable), GetDecoration [''a''] False] new_DecorationsServiceImpl"
  let ?s1 = "snd (fetchData 0 [''a''] ?s)"
  let ?s2 = "run [Fulfilled 0 [''a''] 1 (Some plain_decoration)] ?s1"
  have h: "tst_get (this_data ?s 0) [''a''] = DecorationDataRequest 0" by (simp add: eval_defs)
  have f: "fetchData 0 [''a''] ?s = (fst (fetchData 0 [''a''] ?s), ?s1)" by (rule prod_eqI) (simp_all only: fst_conv snd_conv)
  have p: "provider (wrappers ?s 0) (calls ?s) [''a''] = Thenable" by (simp add: eval_defs)
  have ra: "requests_allocated ?s = 1" by (simp add: eval_defs)
  have d: "this_data ?s2 0 = [([''a''], Decoration plain_decoration)]" by (simp add: eval_defs)
  note t = C1_superseded_fetch_is_ignored [OF refl h f refl, of "[Fulfilled 0 [''a''] 1 (Some plain_decoration)]"
      "Some bubbling_decoration" NotAnError]
  have i: "tst_get (this_data ?s1 0) [''a''] = DecorationDataRequest 1" using t p ra by simp
  show ?thesis unfolding Let_def using h t i d by blast
qed

end
